theory Spec2Isabelle
  imports Complex_Main "HOL-Library.Sublist" "HOL-Library.Multiset" "HOL-Library.Product_Lexorder"
begin

section \<open>Data model (models.py)\<close>

text \<open>
  Python strings are modelled as \<open>string\<close> (lists of characters); the texts that matter
  here (tmux session names, pane ids, prompt markers) are ASCII.  A \<open>datetime\<close> is
  modelled by the number of microseconds since the epoch, which is the resolution of the
  Python type.
\<close>

datatype Status = WORKING | WAITING | READY | READ

record Session =
  name :: string
  path :: string
  tmux_session_name :: string
  last_content :: string
  status :: Status
  is_active :: bool
  last_visited :: int

text \<open>
  The dataclass constructor.  \<open>last_content\<close> and \<open>status\<close> are never passed by any
  caller in the repository, so they always take their declared defaults \<open>""\<close> and
  \<open>Status.READY\<close>; \<open>is_active\<close> defaults to \<open>False\<close> and is passed explicitly where the
  caller does so; \<open>last_visited\<close> is the clock reading \<open>datetime.now()\<close> taken by the
  default factory.
\<close>

definition Session_init :: "string \<Rightarrow> string \<Rightarrow> string \<Rightarrow> bool \<Rightarrow> int \<Rightarrow> Session" where
  "Session_init nm p tn act now =
     \<lparr>name = nm, path = p, tmux_session_name = tn, last_content = [],
      status = READY, is_active = act, last_visited = now\<rparr>"

definition NUM_LINES_CAPTURE :: nat where
  "NUM_LINES_CAPTURE = 8"

definition ADJECTIVES :: "string list" where
  "ADJECTIVES =
     [''swift'', ''bright'', ''quiet'', ''bold'', ''cool'', ''calm'', ''wild'', ''deep'',
      ''keen'', ''wise'', ''pure'', ''warm'', ''fresh'', ''smooth'', ''sharp'', ''clear'']"

definition NOUNS :: "string list" where
  "NOUNS =
     [''fox'', ''hawk'', ''wolf'', ''bear'', ''lynx'', ''eagle'', ''raven'', ''otter'',
      ''spark'', ''wave'', ''node'', ''pixel'', ''cloud'', ''forge'', ''vertex'', ''prism'']"

text \<open>
  \<open>random.choice(seq)\<close> returns \<open>seq[i]\<close> for an index \<open>i\<close> drawn from
  \<open>range(len(seq))\<close>; the drawn index is a parameter of the model.
\<close>

definition choice :: "'a list \<Rightarrow> nat \<Rightarrow> 'a" where
  "choice xs i = xs ! i"

definition generate_random_name :: "nat \<Rightarrow> nat \<Rightarrow> string" where
  "generate_random_name i j = choice ADJECTIVES i @ ''-'' @ choice NOUNS j"

section \<open>Status detection (terminal.py)\<close>

text \<open>
  The substring test \<open>p in content\<close> of Python is \<^const>\<open>sublist\<close> (a contiguous
  sublist); \<open>">" in content\<close> with a one-character pattern is membership of the character.
\<close>

definition detect_status :: "string \<Rightarrow> string \<Rightarrow> Status \<Rightarrow> Status \<times> bool" where
  "detect_status content last_content' current_status =
     (if content \<noteq> last_content' then (WORKING, True)
      else if CHR ''>'' \<in> set content then
        (if current_status \<noteq> READ then (READY, current_status \<noteq> READY)
         else (READ, False))
      else if list_ex (\<lambda>p. sublist p content)
                [''Would you like to proceed?'', ''1. Yes'', ''Do you want to'']
        then (WAITING, current_status \<noteq> WAITING)
      else (WORKING, current_status \<noteq> WORKING))"

section \<open>The tmux gateway (terminal.py)\<close>

text \<open>
  The whitespace that \<open>str.strip()\<close> removes, over the ASCII range: tab, line feed,
  vertical tab, form feed, carriage return, the four separators \<open>0x1C\<close> to \<open>0x1F\<close>
  and the space.
\<close>

definition py_isspace :: "char \<Rightarrow> bool" where
  "py_isspace c \<longleftrightarrow>
     c \<in> set [CHR 0x09, CHR 0x0A, CHR 0x0B, CHR 0x0C, CHR 0x0D,
               CHR 0x1C, CHR 0x1D, CHR 0x1E, CHR 0x1F, CHR 0x20]"

definition py_strip :: "string \<Rightarrow> string" where
  "py_strip s = rev (dropWhile py_isspace (rev (dropWhile py_isspace s)))"

text \<open>\<open>s.split(sep)\<close> for a one-character separator: never empty, \<open>"".split(sep) == [""]\<close>.\<close>

fun py_split :: "char \<Rightarrow> string \<Rightarrow> string list" where
  "py_split sep [] = [[]]"
| "py_split sep (c # cs) =
     (if c = sep then [] # py_split sep cs
      else (case py_split sep cs of
              w # ws \<Rightarrow> (c # w) # ws
            | [] \<Rightarrow> [[c]]))"

text \<open>\<open>s.split(sep, 1)\<close>: cut at the first separator only, if there is one.\<close>

definition py_split1 :: "char \<Rightarrow> string \<Rightarrow> string list" where
  "py_split1 sep s =
     (if sep \<in> set s
      then [takeWhile (\<lambda>c. c \<noteq> sep) s, tl (dropWhile (\<lambda>c. c \<noteq> sep) s)]
      else [s])"

text \<open>
  \<open>TerminalClient.get_pane_map\<close>.  The subprocess call is the environment: its return
  code and its standard output are the parameters.  \<open>pane_map_step\<close> is the body of the
  \<open>for\<close> loop over the lines, the dictionary being a map.
\<close>

definition pane_map_step :: "(string \<rightharpoonup> string) \<Rightarrow> string \<Rightarrow> (string \<rightharpoonup> string)" where
  "pane_map_step pane_map line =
     (if line = [] then pane_map
      else let parts = py_split1 CHR '' '' line in
        if length parts = 2 \<and> pane_map (parts ! 0) = None
        then pane_map(parts ! 0 \<mapsto> parts ! 1)
        else pane_map)"

definition get_pane_map :: "int \<Rightarrow> string \<Rightarrow> (string \<rightharpoonup> string)" where
  "get_pane_map returncode stdout =
     (if returncode \<noteq> 0 then Map.empty
      else foldl pane_map_step Map.empty (py_split CHR 0x0A (py_strip stdout)))"

text \<open>\<open>sep.join(xs)\<close> and the slice \<open>xs[-n:]\<close> (for \<open>n > 0\<close>), as used by the poll loop.\<close>

fun py_join :: "string \<Rightarrow> string list \<Rightarrow> string" where
  "py_join sep [] = []"
| "py_join sep [x] = x"
| "py_join sep (x # y # ys) = x @ sep @ py_join sep (y # ys)"

definition py_last_n :: "nat \<Rightarrow> 'a list \<Rightarrow> 'a list" where
  "py_last_n n xs = drop (length xs - n) xs"

text \<open>\<open>x or y\<close> on strings: the empty string is the only false one.\<close>

definition py_or :: "string \<Rightarrow> string \<Rightarrow> string" where
  "py_or x y = (if x \<noteq> [] then x else y)"

text \<open>
  \<open>list.index(x)\<close> and \<open>list.remove(x)\<close> look for the first element that compares equal
  to \<open>x\<close> and raise \<open>ValueError\<close> when there is none.
\<close>

datatype error = ValueError

fun py_index :: "'a list \<Rightarrow> 'a \<Rightarrow> error + nat" where
  "py_index [] x = Inl ValueError"
| "py_index (y # ys) x =
     (if y = x then Inr 0
      else (case py_index ys x of Inl e \<Rightarrow> Inl e | Inr n \<Rightarrow> Inr (Suc n)))"

fun py_remove :: "'a list \<Rightarrow> 'a \<Rightarrow> error + 'a list" where
  "py_remove [] x = Inl ValueError"
| "py_remove (y # ys) x =
     (if y = x then Inr ys
      else (case py_remove ys x of Inl e \<Rightarrow> Inl e | Inr zs \<Rightarrow> Inr (y # zs)))"

section \<open>The input dialogs (screens.py)\<close>

text \<open>
  \<open>NewSessionScreen.on_input_submitted\<close>.  Submitting the name field only moves the focus
  (no result, \<open>None\<close> here); submitting the path field dismisses the dialog with the
  dictionary of the name and the path, a pair here.  \<open>i\<close> and \<open>j\<close> are the two random
  draws that \<open>generate_random_name\<close> makes when the name field is blank.
\<close>

definition on_input_submitted ::
  "string \<Rightarrow> string \<Rightarrow> string \<Rightarrow> nat \<Rightarrow> nat \<Rightarrow> (string \<times> string) option" where
  "on_input_submitted input_id name_value path_value i j =
     (if input_id = ''name'' then None
      else Some (py_or (py_strip name_value) (generate_random_name i j),
                 py_or (py_strip path_value) ''~''))"

text \<open>\<open>RenameSessionScreen.on_input_submitted\<close>: the stripped text, or \<open>None\<close> when blank.\<close>

definition rename_on_input_submitted :: "string \<Rightarrow> string option" where
  "rename_on_input_submitted name_value =
     (let new_name = py_strip name_value in if new_name \<noteq> [] then Some new_name else None)"

section \<open>The application (app.py)\<close>

text \<open>
  The state of \<open>CactusApp\<close> that the operations change: the list \<open>self.sessions\<close> and the
  text of the \<open>#hint\<close> widget.  The objects of the list are told apart by their position:
  every \<open>Session\<close> object is constructed once and appended once, so a position names one
  object.  The session of the highlighted list item is the position of that object.
\<close>

record App =
  sessions :: "Session list"
  hint :: string

definition STATUS_PRIORITY :: "Status \<rightharpoonup> nat" where
  "STATUS_PRIORITY = map_of [(WAITING, 1), (WORKING, 2), (READY, 3), (READ, 4)]"

definition dict_get :: "('k \<rightharpoonup> 'v) \<Rightarrow> 'k \<Rightarrow> 'v \<Rightarrow> 'v" where
  "dict_get d k dflt = (case d k of Some v \<Rightarrow> v | None \<Rightarrow> dflt)"

text \<open>
  \<open>datetime.timestamp()\<close> belongs to Python, not to the repository, and its result is a
  floating-point number.  It is the parameter \<open>timestamp\<close> of everything that sorts: a
  function from the \<open>datetime\<close> to the real number that the float denotes (floats are
  compared as the numbers they denote).  Nothing is assumed about it; in particular two
  different \<open>datetime\<close>s may have the same timestamp, as rounding to a float makes them
  when they are close together and far from the epoch.
\<close>

definition sort_key_of :: "(int \<Rightarrow> real) \<Rightarrow> Session \<Rightarrow> nat \<times> real" where
  "sort_key_of timestamp s =
     (dict_get STATUS_PRIORITY (status s) 99, - timestamp (last_visited s))"

text \<open>
  \<open>_sort_sessions\<close>: \<open>list.sort\<close> with a key is stable, and so is \<^const>\<open>sort_key\<close>; pairs
  are compared lexicographically, as Python compares tuples.  \<open>_refresh_list\<close> sorts the
  sessions and rebuilds the list widget from them.
\<close>

definition sort_sessions :: "(int \<Rightarrow> real) \<Rightarrow> Session list \<Rightarrow> Session list" where
  "sort_sessions timestamp ss = sort_key (sort_key_of timestamp) ss"

definition refresh_list :: "(int \<Rightarrow> real) \<Rightarrow> App \<Rightarrow> App" where
  "refresh_list timestamp app = app\<lparr>sessions := sort_sessions timestamp (sessions app)\<rparr>"

text \<open>
  The concrete runs below use sessions whose \<open>last_visited\<close> lies on a whole second.  The
  timestamp of such a \<open>datetime\<close> is its count of seconds, a whole number that floating
  point holds exactly; \<open>whole_second_timestamp\<close> gives that count, and is applied to no
  other \<open>datetime\<close>.
\<close>

definition whole_second_timestamp :: "int \<Rightarrow> real" where
  "whole_second_timestamp t = real_of_int (t div 1000000)"

text \<open>
  \<open>_load_existing_sessions\<close>.  \<open>server_sessions\<close> lists the names of the tmux sessions,
  each with the reading of the clock at the moment its \<open>Session\<close> would be constructed.
\<close>

definition load_step :: "Session list \<Rightarrow> string \<times> int \<Rightarrow> Session list" where
  "load_step ss tmux_session =
     (if prefix ''claude-'' (fst tmux_session)
      then ss @ [Session_init (drop 7 (fst tmux_session)) [] (fst tmux_session) False
                   (snd tmux_session)]
      else ss)"

definition load_existing_sessions :: "(int \<Rightarrow> real) \<Rightarrow> App \<Rightarrow> (string \<times> int) list \<Rightarrow> App" where
  "load_existing_sessions timestamp app server_sessions =
     refresh_list timestamp (app\<lparr>sessions := foldl load_step (sessions app) server_sessions\<rparr>)"

definition initial_app :: App where
  "initial_app =
     \<lparr>sessions = [], hint = ''In another terminal: tmux attach -t <session-name>''\<rparr>"

text \<open>
  \<open>_update_status\<close>, one poll tick.  \<open>pane_map\<close> is the result of \<open>get_pane_map\<close> and
  \<open>capture_pane\<close> gives the lines captured for a pane id (\<open>[]\<close> on failure).
  \<open>update_session\<close> is the body of the loop: the session as it leaves the iteration, and
  whether its status changed.
\<close>

definition update_session ::
  "(string \<rightharpoonup> string) \<Rightarrow> (string \<Rightarrow> string list) \<Rightarrow> Session \<Rightarrow> Session \<times> bool" where
  "update_session pane_map capture_pane s =
     (case pane_map (tmux_session_name s) of
        None \<Rightarrow> (s, False)
      | Some pane_id \<Rightarrow>
          if pane_id = [] then (s, False)
          else let lines = capture_pane pane_id in
            if lines = [] then (s, False)
            else let content = py_join [CHR 0x0A] (py_last_n NUM_LINES_CAPTURE lines);
                     r = detect_status content (last_content s) (status s);
                     s1 = (if content \<noteq> last_content s then s\<lparr>last_content := content\<rparr> else s)
                 in if snd r then (s1\<lparr>status := fst r\<rparr>, True) else (s1, False))"

definition update_status ::
  "(int \<Rightarrow> real) \<Rightarrow> App \<Rightarrow> (string \<rightharpoonup> string) \<Rightarrow> (string \<Rightarrow> string list) \<Rightarrow> App" where
  "update_status timestamp app pane_map capture_pane =
     (let rs = map (update_session pane_map capture_pane) (sessions app);
          app1 = app\<lparr>sessions := map fst rs\<rparr>
      in if list_ex snd rs then refresh_list timestamp app1 else app1)"

text \<open>
  \<open>action_new_session\<close>.  \<open>result\<close> is what the dialog was dismissed with, \<open>expanduser\<close>
  stands for \<open>os.path.expanduser\<close>, \<open>now\<close> is the clock reading taken by the constructor
  and \<open>switch_ok\<close> is the answer of \<open>switch_to_session\<close>.  Saving the path and creating the
  tmux session act on the file system and on tmux only.
\<close>

definition action_new_session ::
  "(int \<Rightarrow> real) \<Rightarrow> (string \<Rightarrow> string) \<Rightarrow> App \<Rightarrow> (string \<times> string) option \<Rightarrow> int \<Rightarrow> bool \<Rightarrow> App" where
  "action_new_session timestamp expanduser app result now switch_ok =
     (case result of
        None \<Rightarrow> app
      | Some r \<Rightarrow>
          let tmux_name = ''claude-'' @ fst r;
              expanded_path = expanduser (snd r);
              cleared = map (\<lambda>s. s\<lparr>is_active := False\<rparr>) (sessions app);
              app1 = refresh_list timestamp
                (app\<lparr>sessions := cleared @ [Session_init (fst r) expanded_path tmux_name True now]\<rparr>)
          in app1\<lparr>hint := (if switch_ok then ''Switched to: '' @ tmux_name
                             else ''Attach: tmux attach -t '' @ tmux_name)\<rparr>)"

text \<open>
  \<open>action_rename_session\<close> on the highlighted session (position \<open>i\<close>), \<open>new_name\<close> being
  what the rename dialog was dismissed with.
\<close>

definition action_rename_session ::
  "(int \<Rightarrow> real) \<Rightarrow> App \<Rightarrow> nat option \<Rightarrow> string option \<Rightarrow> App" where
  "action_rename_session timestamp app highlighted new_name =
     (case highlighted of
        None \<Rightarrow> app
      | Some i \<Rightarrow>
          (case new_name of
             None \<Rightarrow> app
           | Some n \<Rightarrow>
               if n = [] \<or> n = name (sessions app ! i) then app
               else (refresh_list timestamp
                 (app\<lparr>sessions := (sessions app)
                    [i := (sessions app ! i)\<lparr>name := n, tmux_session_name := ''claude-'' @ n\<rparr>]\<rparr>))
                 \<lparr>hint := ''Renamed to: '' @ n\<rparr>))"

text \<open>
  The loop \<open>for s in self.sessions: s.is_active = (s == session)\<close> of
  \<open>action_switch_session\<close>.  \<open>Session\<close> is a dataclass, so \<open>==\<close> compares the fields, which
  is the equality of the record; \<open>session\<close> is the object at position \<open>i\<close> and is itself
  assigned to when the loop reaches it, so every comparison reads it from the list as it
  is at that iteration.
\<close>

definition mark_step :: "nat \<Rightarrow> nat \<Rightarrow> Session list \<Rightarrow> Session list" where
  "mark_step i j ss = ss[j := (ss ! j)\<lparr>is_active := (ss ! j = ss ! i)\<rparr>]"

definition mark_active :: "nat \<Rightarrow> Session list \<Rightarrow> Session list" where
  "mark_active i ss = fold (mark_step i) [0..<length ss] ss"

definition action_switch_session ::
  "(int \<Rightarrow> real) \<Rightarrow> App \<Rightarrow> nat option \<Rightarrow> bool \<Rightarrow> int \<Rightarrow> App" where
  "action_switch_session timestamp app highlighted switch_ok now =
     (case highlighted of
        None \<Rightarrow> app
      | Some i \<Rightarrow>
          if switch_ok then
            let ss1 = mark_active i (sessions app);
                ss2 = ss1[i := (ss1 ! i)\<lparr>last_visited := now\<rparr>];
                ss3 = (if status (ss2 ! i) = READY then ss2[i := (ss2 ! i)\<lparr>status := READ\<rparr>]
                       else ss2)
            in (refresh_list timestamp (app\<lparr>sessions := ss3\<rparr>))
                 \<lparr>hint := ''Switched to: '' @ tmux_session_name (ss3 ! i)\<rparr>
          else app\<lparr>hint := ''No tmux client! Run: tmux attach -t ''
                              @ tmux_session_name (sessions app ! i)\<rparr>)"

text \<open>
  \<open>action_delete_session\<close> on the highlighted session (position \<open>i\<close>).  \<open>switch_ok\<close> is
  the answer of \<open>switch_to_session\<close> for the target; \<open>delete_session\<close> returns nothing and
  the outcome of its tmux call is dropped, so it has no parameter.  \<open>refocus\<close> is the
  block under \<open>if len(self.sessions) > 1\<close>.
\<close>

definition refocus :: "App \<Rightarrow> nat \<Rightarrow> bool \<Rightarrow> error + App" where
  "refocus app i switch_ok =
     (case py_index (sessions app) (sessions app ! i) of
        Inl e \<Rightarrow> Inl e
      | Inr idx \<Rightarrow>
          let t = (if idx = 0 then 1 else 0) in
          if switch_ok then
            let cleared = map (\<lambda>s. s\<lparr>is_active := False\<rparr>) (sessions app)
            in Inr (app\<lparr>sessions := cleared[t := (cleared ! t)\<lparr>is_active := True\<rparr>],
                        hint := ''Switched to: '' @ tmux_session_name (sessions app ! t)\<rparr>)
          else Inr app)"

definition action_delete_session ::
  "(int \<Rightarrow> real) \<Rightarrow> App \<Rightarrow> nat option \<Rightarrow> bool \<Rightarrow> error + App" where
  "action_delete_session timestamp app highlighted switch_ok =
     (case highlighted of
        None \<Rightarrow> Inr app
      | Some i \<Rightarrow>
          (case (if length (sessions app) > 1 then refocus app i switch_ok else Inr app) of
             Inl e \<Rightarrow> Inl e
           | Inr app1 \<Rightarrow>
               (case py_remove (sessions app1) (sessions app1 ! i) of
                  Inl e \<Rightarrow> Inl e
                | Inr ss \<Rightarrow> Inr (refresh_list timestamp (app1\<lparr>sessions := ss\<rparr>)))))"

text \<open>The number of sessions that are marked active.\<close>

definition active_count :: "Session list \<Rightarrow> nat" where
  "active_count ss = length (filter is_active ss)"

section \<open>Properties of the classifier\<close>

text \<open>
  Claim C1.  Whenever the captured sample differs from the previous sample, the classifier
  answers \<open>(WORKING, True)\<close>, whatever the current state of the session is.
\<close>

theorem detect_status_changed_content:
  assumes "content \<noteq> previous"
  shows "detect_status content previous current_status = (WORKING, True)"
  using assms by (simp add: detect_status_def)

theorem detect_status_changed_content_witness:
  "''$ make'' \<noteq> ''> '' \<and> detect_status ''$ make'' ''> '' READ = (WORKING, True)"
proof -
  have ne: "''$ make'' \<noteq> ''> ''" by simp
  show ?thesis
    using ne detect_status_changed_content [OF ne, of READ] by simp
qed

text \<open>
  Claim C2.  An unchanged sample that shows the prompt marker \<open>>\<close> leaves a session that
  is \<open>READ\<close> in the state \<open>READ\<close> and reports no change: a static idle prompt never
  promotes it back to \<open>READY\<close>.
\<close>

theorem detect_status_read_sticky:
  assumes "CHR ''>'' \<in> set sample"
  shows "detect_status sample sample READ = (READ, False)"
  using assms by (simp add: detect_status_def)

theorem detect_status_read_sticky_witness:
  "CHR ''>'' \<in> set ''done > '' \<and> detect_status ''done > '' ''done > '' READ = (READ, False)"
proof -
  have m: "CHR ''>'' \<in> set ''done > ''" by simp
  show ?thesis
    using m detect_status_read_sticky [OF m] by simp
qed

text \<open>
  Claim C6.  An unchanged sample that shows the prompt marker \<open>>\<close> moves every session
  that is not \<open>READ\<close> to \<open>READY\<close>, and the change flag is raised exactly when the session
  was not \<open>READY\<close> already.  Nothing is assumed about confirmation phrases, so the rule
  also applies to samples that contain one: the idle-prompt rule comes first.
\<close>

theorem detect_status_prompt_precedence:
  assumes "CHR ''>'' \<in> set sample" and "current_status \<noteq> READ"
  shows "detect_status sample sample current_status = (READY, current_status \<noteq> READY)"
  using assms by (simp add: detect_status_def)

theorem detect_status_prompt_precedence_witness:
  "CHR ''>'' \<in> set ''> Would you like to proceed?'' \<and> WAITING \<noteq> READ
   \<and> sublist ''Would you like to proceed?'' ''> Would you like to proceed?''
   \<and> detect_status ''> Would you like to proceed?'' ''> Would you like to proceed?'' WAITING
       = (READY, True)"
proof -
  have m: "CHR ''>'' \<in> set ''> Would you like to proceed?''" by simp
  have s: "WAITING \<noteq> READ" by simp
  have p: "sublist ''Would you like to proceed?'' ''> Would you like to proceed?''"
    by (simp add: sublist_Cons_right)
  show ?thesis
    using m s p detect_status_prompt_precedence [OF m s] by simp
qed

section \<open>The pane map\<close>

lemma pane_map_step_keeps: "pm k = Some v \<Longrightarrow> pane_map_step pm l k = Some v"
  by (auto simp: pane_map_step_def Let_def)

lemma foldl_pane_map_step_keeps: "pm k = Some v \<Longrightarrow> foldl pane_map_step pm ls k = Some v"
  by (induction ls arbitrary: pm) (simp_all add: pane_map_step_keeps)

lemma pane_map_step_hit: "pm k = None \<Longrightarrow> py_split1 CHR '' '' l = [k, v] \<Longrightarrow> pane_map_step pm l k = Some v"
  by (auto simp: pane_map_step_def Let_def py_split1_def split: if_splits)

lemma pane_map_step_miss: "pm k = None \<Longrightarrow> \<forall>v. py_split1 CHR '' '' l \<noteq> [k, v] \<Longrightarrow> pane_map_step pm l k = None"
  by (auto simp: pane_map_step_def Let_def py_split1_def split: if_splits)

lemma foldl_pane_map_step_first:
  "pm k = None \<Longrightarrow>
   foldl pane_map_step pm ls k = Some v \<longleftrightarrow>
   (\<exists>i<length ls. py_split1 CHR '' '' (ls ! i) = [k, v] \<and> (\<forall>j<i. \<forall>v'. py_split1 CHR '' '' (ls ! j) \<noteq> [k, v']))"
proof (induction ls arbitrary: pm)
  case Nil
  then show ?case by simp
next
  case (Cons l ls)
  show ?case
  proof (cases "\<exists>w. py_split1 CHR '' '' l = [k, w]")
    case True
    then obtain w where w: "py_split1 CHR '' '' l = [k, w]" by blast
    have "foldl pane_map_step pm (l # ls) k = Some w"
      using pane_map_step_hit[of pm k l w] Cons.prems w by (simp add: foldl_pane_map_step_keeps)
    moreover have "(\<exists>i<length (l # ls). py_split1 CHR '' '' ((l # ls) ! i) = [k, v] \<and> (\<forall>j<i. \<forall>v'. py_split1 CHR '' '' ((l # ls) ! j) \<noteq> [k, v'])) \<longleftrightarrow> v = w"
    proof
      assume "\<exists>i<length (l # ls). py_split1 CHR '' '' ((l # ls) ! i) = [k, v] \<and> (\<forall>j<i. \<forall>v'. py_split1 CHR '' '' ((l # ls) ! j) \<noteq> [k, v'])"
      then obtain i where i: "py_split1 CHR '' '' ((l # ls) ! i) = [k, v]" "\<forall>j<i. \<forall>v'. py_split1 CHR '' '' ((l # ls) ! j) \<noteq> [k, v']" by blast
      have "i = 0" proof (rule ccontr) assume "i \<noteq> 0" then have "0 < i" by simp
        with i(2) w show False by fastforce qed
      with i(1) w show "v = w" by simp
    next
      assume "v = w" with w show "\<exists>i<length (l # ls). py_split1 CHR '' '' ((l # ls) ! i) = [k, v] \<and> (\<forall>j<i. \<forall>v'. py_split1 CHR '' '' ((l # ls) ! j) \<noteq> [k, v'])"
        by (intro exI[of _ 0]) simp
    qed
    ultimately show ?thesis by auto
  next
    case False
    then have miss: "pane_map_step pm l k = None" using pane_map_step_miss[of pm k l] Cons.prems by blast
    have "foldl pane_map_step pm (l # ls) k = Some v \<longleftrightarrow> (\<exists>i<length ls. py_split1 CHR '' '' (ls ! i) = [k, v] \<and> (\<forall>j<i. \<forall>v'. py_split1 CHR '' '' (ls ! j) \<noteq> [k, v']))"
      using Cons.IH[of "pane_map_step pm l"] miss by simp
    also have "\<dots> \<longleftrightarrow> (\<exists>i<length (l # ls). py_split1 CHR '' '' ((l # ls) ! i) = [k, v] \<and> (\<forall>j<i. \<forall>v'. py_split1 CHR '' '' ((l # ls) ! j) \<noteq> [k, v']))"
      (is "?L \<longleftrightarrow> ?R")
    proof
      assume ?L
      then obtain i where i: "i < length ls" "py_split1 CHR '' '' (ls ! i) = [k, v]" "\<forall>j<i. \<forall>v'. py_split1 CHR '' '' (ls ! j) \<noteq> [k, v']" by blast
      have "\<forall>j<Suc i. \<forall>v'. py_split1 CHR '' '' ((l # ls) ! j) \<noteq> [k, v']"
        using i(3) False by (auto simp: nth_Cons split: nat.splits)
      with i(1,2) show ?R by (intro exI[of _ "Suc i"]) simp
    next
      assume ?R
      then obtain i where i: "i < length (l # ls)" "py_split1 CHR '' '' ((l # ls) ! i) = [k, v]" "\<forall>j<i. \<forall>v'. py_split1 CHR '' '' ((l # ls) ! j) \<noteq> [k, v']" by blast
      from i(2) False obtain i' where i': "i = Suc i'" by (cases i) auto
      have "\<forall>j<i'. \<forall>v'. py_split1 CHR '' '' (ls ! j) \<noteq> [k, v']"
      proof (intro allI impI)
        fix j v' assume "j < i'" then have "Suc j < i" using i' by simp
        with i(3) show "py_split1 CHR '' '' (ls ! j) \<noteq> [k, v']" by fastforce
      qed
      with i i' show ?L by (intro exI[of _ i']) simp
    qed
    finally show ?thesis .
  qed
qed

lemma get_pane_map_failure: "returncode \<noteq> 0 \<Longrightarrow> get_pane_map returncode stdout = Map.empty"
  by (simp add: get_pane_map_def)

text \<open>
  Claim C3, as the code has it.  When tmux answers, \<open>get_pane_map\<close> maps a session name
  \<open>k\<close> to the pane id \<open>v\<close> exactly when some listed line splits into \<open>k\<close> and \<open>v\<close> and
  no earlier line is a line of \<open>k\<close>: for a name that is listed more than once the pane id
  that was listed first is kept, and the later ones are ignored.
\<close>

theorem get_pane_map_first_listed_wins:
  assumes "ls = py_split CHR 0x0A (py_strip stdout)"
  shows "get_pane_map 0 stdout k = Some v \<longleftrightarrow>
         (\<exists>i<length ls. py_split1 CHR '' '' (ls ! i) = [k, v]
            \<and> (\<forall>j<i. \<forall>v'. py_split1 CHR '' '' (ls ! j) \<noteq> [k, v']))"
  using foldl_pane_map_step_first [of Map.empty k ls v]
  by (simp add: get_pane_map_def assms)

theorem get_pane_map_first_listed_wins_witness:
  "[''work %3'', ''work %4'', ''misc %7'']
     = py_split CHR 0x0A (py_strip (''work %3'' @ [CHR 0x0A] @ ''work %4'' @ [CHR 0x0A]
                                     @ ''misc %7'' @ [CHR 0x0A]))
   \<and> get_pane_map 0 (''work %3'' @ [CHR 0x0A] @ ''work %4'' @ [CHR 0x0A]
                      @ ''misc %7'' @ [CHR 0x0A]) ''work'' = Some ''%3''"
proof -
  let ?out = "''work %3'' @ [CHR 0x0A] @ ''work %4'' @ [CHR 0x0A] @ ''misc %7'' @ [CHR 0x0A]"
  let ?ls = "[''work %3'', ''work %4'', ''misc %7'']"
  have ls: "?ls = py_split CHR 0x0A (py_strip ?out)"
    by (simp add: py_strip_def py_isspace_def)
  have "py_split1 CHR '' '' (?ls ! 0) = [''work'', ''%3'']
          \<and> (\<forall>j<0. \<forall>v'. py_split1 CHR '' '' (?ls ! j) \<noteq> [''work'', v'])"
    by (simp add: py_split1_def)
  then have "\<exists>i<length ?ls. py_split1 CHR '' '' (?ls ! i) = [''work'', ''%3'']
          \<and> (\<forall>j<i. \<forall>v'. py_split1 CHR '' '' (?ls ! j) \<noteq> [''work'', v'])"
    by (intro exI [of _ 0]) simp
  then have "get_pane_map 0 ?out ''work'' = Some ''%3''"
    by (rule iffD2 [OF get_pane_map_first_listed_wins [OF ls]])
  with ls show ?thesis by (rule conjI)
qed

text \<open>
  The claim as it was stated fails: of two lines for the session \<open>main\<close> the pane id of
  the line listed last is not the one in the map.
\<close>

theorem get_pane_map_last_listed_loses:
  "py_split CHR 0x0A (py_strip (''main %0'' @ [CHR 0x0A] @ ''main %1'' @ [CHR 0x0A]))
     = [''main %0'', ''main %1'']
   \<and> get_pane_map 0 (''main %0'' @ [CHR 0x0A] @ ''main %1'' @ [CHR 0x0A]) ''main'' = Some ''%0''
   \<and> get_pane_map 0 (''main %0'' @ [CHR 0x0A] @ ''main %1'' @ [CHR 0x0A]) ''main'' \<noteq> Some ''%1''"
  by (simp add: get_pane_map_def py_strip_def py_isspace_def pane_map_step_def py_split1_def)

section \<open>Generated session names\<close>

lemma no_hyphen_words:
  "\<forall>w \<in> set ADJECTIVES \<union> set NOUNS. CHR ''-'' \<notin> set w"
  by (simp add: ADJECTIVES_def NOUNS_def)

text \<open>
  Claim C4, as the code has it.  When the dialog is submitted with a blank name, the
  name of the session is one adjective of \<open>ADJECTIVES\<close>, a hyphen and one noun of
  \<open>NOUNS\<close>, from a single pair of random draws.  The dialog does not see the registry:
  the name is not compared with the names of the existing sessions, and nothing is
  drawn again.
\<close>

theorem blank_name_is_adjective_noun:
  assumes "input_id \<noteq> ''name''" and "py_strip name_value = []"
    and "i < length ADJECTIVES" and "j < length NOUNS"
  shows "\<exists>adj \<in> set ADJECTIVES. \<exists>noun \<in> set NOUNS.
           map_option fst (on_input_submitted input_id name_value path_value i j)
             = Some (adj @ ''-'' @ noun)
           \<and> CHR ''-'' \<notin> set adj \<and> CHR ''-'' \<notin> set noun"
proof -
  have a: "ADJECTIVES ! i \<in> set ADJECTIVES" and n: "NOUNS ! j \<in> set NOUNS"
    using assms(3,4) by simp_all
  have "map_option fst (on_input_submitted input_id name_value path_value i j)
          = Some (ADJECTIVES ! i @ ''-'' @ NOUNS ! j)"
    using assms(1,2)
    by (simp add: on_input_submitted_def py_or_def generate_random_name_def choice_def)
  moreover have "CHR ''-'' \<notin> set (ADJECTIVES ! i)" "CHR ''-'' \<notin> set (NOUNS ! j)"
    using a n no_hyphen_words by blast+
  ultimately show ?thesis using a n by blast
qed

theorem blank_name_is_adjective_noun_witness:
  "''path'' \<noteq> ''name'' \<and> py_strip ''  '' = [] \<and> 3 < length ADJECTIVES \<and> 10 < length NOUNS
   \<and> (\<exists>adj \<in> set ADJECTIVES. \<exists>noun \<in> set NOUNS.
           map_option fst (on_input_submitted ''path'' ''  '' ''~/code'' 3 10)
             = Some (adj @ ''-'' @ noun)
           \<and> CHR ''-'' \<notin> set adj \<and> CHR ''-'' \<notin> set noun)
   \<and> on_input_submitted ''path'' ''  '' ''~/code'' 3 10 = Some (''bold-node'', ''~/code'')"
proof -
  have h1: "''path'' \<noteq> ''name''" by simp
  have h2: "py_strip ''  '' = []" by (simp add: py_strip_def py_isspace_def)
  have h3: "3 < length ADJECTIVES" by (simp add: ADJECTIVES_def)
  have h4: "10 < length NOUNS" by (simp add: NOUNS_def)
  have e: "on_input_submitted ''path'' ''  '' ''~/code'' 3 10 = Some (''bold-node'', ''~/code'')"
    by (simp add: on_input_submitted_def py_or_def py_strip_def py_isspace_def
        generate_random_name_def choice_def ADJECTIVES_def NOUNS_def)
  show ?thesis
    using h1 h2 h3 h4 e blank_name_is_adjective_noun [OF h1 h2 h3 h4, of "''~/code''"]
    by blast
qed

text \<open>
  The claim as it was stated fails: with a session \<open>swift-fox\<close> in the registry, a blank
  name and the draws \<open>0\<close> and \<open>0\<close> give a second session of that name.
\<close>

theorem random_name_collides:
  "map name (sessions
     (action_new_session whole_second_timestamp id
        (action_new_session whole_second_timestamp id initial_app
           (on_input_submitted ''path'' ''swift-fox'' ''~'' 7 7) 1000000 False)
        (on_input_submitted ''path'' [] ''~'' 0 0) 2000000 False))
   = [''swift-fox'', ''swift-fox'']"
  by (simp add: action_new_session_def on_input_submitted_def py_or_def py_strip_def
      py_isspace_def generate_random_name_def choice_def ADJECTIVES_def NOUNS_def
      initial_app_def refresh_list_def sort_sessions_def sort_key_of_def dict_get_def
      STATUS_PRIORITY_def whole_second_timestamp_def Session_init_def Let_def)

section \<open>The sorted view\<close>

lemma sort_key_of_le:
  "sort_key_of timestamp a \<le> sort_key_of timestamp b \<Longrightarrow>
   dict_get STATUS_PRIORITY (status a) 99 < dict_get STATUS_PRIORITY (status b) 99
   \<or> (dict_get STATUS_PRIORITY (status a) 99 = dict_get STATUS_PRIORITY (status b) 99
       \<and> timestamp (last_visited b) \<le> timestamp (last_visited a))"
  by (auto simp: sort_key_of_def less_eq_prod_def)

text \<open>
  Claim C5.  For every list of sessions and whatever \<open>datetime.timestamp()\<close> computes,
  \<open>_sort_sessions\<close> returns the same sessions ordered by status priority, \<open>WAITING\<close> before
  \<open>WORKING\<close> before \<open>READY\<close> before \<open>READ\<close>, and within one status by descending timestamp
  of \<open>last_visited\<close>: of two sessions of the result, the earlier one has the smaller priority
  number, or the same one and a timestamp that is not smaller.  The sort is stable: the
  sessions of one key, that is of one status and one timestamp, keep the order they had.
\<close>

theorem sort_sessions_order:
  "sorted_wrt (\<lambda>a b.
       dict_get STATUS_PRIORITY (status a) 99 < dict_get STATUS_PRIORITY (status b) 99
       \<or> (dict_get STATUS_PRIORITY (status a) 99 = dict_get STATUS_PRIORITY (status b) 99
           \<and> timestamp (last_visited b) \<le> timestamp (last_visited a)))
     (sort_sessions timestamp ss)
   \<and> mset (sort_sessions timestamp ss) = mset ss
   \<and> filter (\<lambda>s. sort_key_of timestamp s = k) (sort_sessions timestamp ss)
       = filter (\<lambda>s. sort_key_of timestamp s = k) ss
   \<and> dict_get STATUS_PRIORITY WAITING 99 < dict_get STATUS_PRIORITY WORKING 99
   \<and> dict_get STATUS_PRIORITY WORKING 99 < dict_get STATUS_PRIORITY READY 99
   \<and> dict_get STATUS_PRIORITY READY 99 < dict_get STATUS_PRIORITY READ 99"
proof -
  have "sorted (map (sort_key_of timestamp) (sort_sessions timestamp ss))"
    by (simp add: sort_sessions_def)
  then have "sorted_wrt (\<lambda>a b. sort_key_of timestamp a \<le> sort_key_of timestamp b)
     (sort_sessions timestamp ss)"
    by (simp add: sorted_wrt_map)
  then have 1: "sorted_wrt (\<lambda>a b.
       dict_get STATUS_PRIORITY (status a) 99 < dict_get STATUS_PRIORITY (status b) 99
       \<or> (dict_get STATUS_PRIORITY (status a) 99 = dict_get STATUS_PRIORITY (status b) 99
           \<and> timestamp (last_visited b) \<le> timestamp (last_visited a)))
     (sort_sessions timestamp ss)"
    by (rule sorted_wrt_mono_rel [rotated]) (rule sort_key_of_le)
  have 2: "mset (sort_sessions timestamp ss) = mset ss"
    by (simp add: sort_sessions_def)
  have 3: "filter (\<lambda>s. sort_key_of timestamp s = k) (sort_sessions timestamp ss)
       = filter (\<lambda>s. sort_key_of timestamp s = k) ss"
    unfolding sort_sessions_def by (rule sort_key_stable)
  have 4: "dict_get STATUS_PRIORITY WAITING 99 < dict_get STATUS_PRIORITY WORKING 99
   \<and> dict_get STATUS_PRIORITY WORKING 99 < dict_get STATUS_PRIORITY READY 99
   \<and> dict_get STATUS_PRIORITY READY 99 < dict_get STATUS_PRIORITY READ 99"
    by (simp add: dict_get_def STATUS_PRIORITY_def)
  show ?thesis
    by (rule conjI [OF 1 conjI [OF 2 conjI [OF 3 4]]])
qed

text \<open>
  Sessions of the four statuses come out in the order of the priorities, whatever their
  \<open>last_visited\<close> and their timestamps are.
\<close>

lemma sort_sessions_example:
  "map status (sort_sessions timestamp
     [a\<lparr>status := READY\<rparr>, b\<lparr>status := WAITING\<rparr>, c\<lparr>status := WORKING\<rparr>,
      d\<lparr>status := READ\<rparr>])
   = [WAITING, WORKING, READY, READ]"
  by (simp add: sort_sessions_def sort_key_of_def dict_get_def STATUS_PRIORITY_def
      less_eq_prod_def)

text \<open>
  Two sessions of one status whose \<open>last_visited\<close> differ but have the same timestamp stay
  in the order they had: here the one visited earlier stays first.
\<close>

lemma sort_sessions_equal_timestamps:
  assumes "timestamp (last_visited a) = timestamp (last_visited b)" and "status a = status b"
  shows "sort_sessions timestamp [a, b] = [a, b]"
  using assms by (simp add: sort_sessions_def sort_key_of_def)

text \<open>
  Where the timestamps tell the \<open>last_visited\<close> of the sessions apart in their order, the
  order within one status is also that of descending \<open>last_visited\<close>.
\<close>

lemma sort_sessions_most_recent_first:
  assumes "\<And>a b. a \<in> set ss \<Longrightarrow> b \<in> set ss \<Longrightarrow> last_visited a < last_visited b
             \<Longrightarrow> timestamp (last_visited a) < timestamp (last_visited b)"
  shows "sorted_wrt (\<lambda>a b.
       dict_get STATUS_PRIORITY (status a) 99 < dict_get STATUS_PRIORITY (status b) 99
       \<or> (dict_get STATUS_PRIORITY (status a) 99 = dict_get STATUS_PRIORITY (status b) 99
           \<and> last_visited b \<le> last_visited a))
     (sort_sessions timestamp ss)"
proof -
  have "sorted (map (sort_key_of timestamp) (sort_sessions timestamp ss))"
    by (simp add: sort_sessions_def)
  then have k: "sorted_wrt (\<lambda>a b. sort_key_of timestamp a \<le> sort_key_of timestamp b)
     (sort_sessions timestamp ss)"
    by (simp add: sorted_wrt_map)
  show ?thesis
  proof (rule sorted_wrt_mono_rel [OF _ k])
    fix a b
    assume a: "a \<in> set (sort_sessions timestamp ss)"
      and b: "b \<in> set (sort_sessions timestamp ss)"
      and le: "sort_key_of timestamp a \<le> sort_key_of timestamp b"
    from a b have ab: "a \<in> set ss" "b \<in> set ss"
      by (simp_all add: sort_sessions_def)
    from sort_key_of_le [OF le]
    consider "dict_get STATUS_PRIORITY (status a) 99 < dict_get STATUS_PRIORITY (status b) 99"
      | "dict_get STATUS_PRIORITY (status a) 99 = dict_get STATUS_PRIORITY (status b) 99"
        "timestamp (last_visited b) \<le> timestamp (last_visited a)"
      by (elim disjE conjE)
    then show "dict_get STATUS_PRIORITY (status a) 99 < dict_get STATUS_PRIORITY (status b) 99
       \<or> (dict_get STATUS_PRIORITY (status a) 99 = dict_get STATUS_PRIORITY (status b) 99
           \<and> last_visited b \<le> last_visited a)"
    proof cases
      case 1
      then show ?thesis by (rule disjI1)
    next
      case 2
      have "last_visited b \<le> last_visited a"
      proof (rule ccontr)
        assume "\<not> last_visited b \<le> last_visited a"
        then have "last_visited a < last_visited b" by simp
        from assms [OF ab this] 2(2) show False by simp
      qed
      with 2(1) show ?thesis by (intro disjI2 conjI)
    qed
  qed
qed

section \<open>The registry: auxiliary facts\<close>

lemma set_sort_sessions: "set (sort_sessions timestamp ss) = set ss"
  by (simp add: sort_sessions_def)

lemma length_sort_sessions: "length (sort_sessions timestamp ss) = length ss"
  by (simp add: sort_sessions_def)

lemma py_index_distinct:
  "i < length xs \<Longrightarrow> distinct (map f xs) \<Longrightarrow> py_index xs (xs ! i) = Inr i"
proof (induction xs arbitrary: i)
  case Nil
  then show ?case by simp
next
  case (Cons y ys)
  show ?case
  proof (cases i)
    case 0
    then show ?thesis by simp
  next
    case (Suc k)
    with Cons.prems have k: "k < length ys" and d: "distinct (map f ys)"
      and ny: "f y \<notin> f ` set ys" by simp_all
    from k ny have "y \<noteq> ys ! k" by (metis imageI nth_mem)
    moreover have "py_index ys (ys ! k) = Inr k" using Cons.IH [OF k d] .
    ultimately show ?thesis using Suc by simp
  qed
qed

lemma py_remove_distinct:
  "i < length xs \<Longrightarrow> distinct (map f xs) \<Longrightarrow>
   py_remove xs (xs ! i) = Inr (take i xs @ drop (Suc i) xs)"
proof (induction xs arbitrary: i)
  case Nil
  then show ?case by simp
next
  case (Cons y ys)
  show ?case
  proof (cases i)
    case 0
    then show ?thesis by simp
  next
    case (Suc k)
    with Cons.prems have k: "k < length ys" and d: "distinct (map f ys)"
      and ny: "f y \<notin> f ` set ys" by simp_all
    from k ny have "y \<noteq> ys ! k" by (metis imageI nth_mem)
    moreover have "py_remove ys (ys ! k) = Inr (take k ys @ drop (Suc k) ys)"
      using Cons.IH [OF k d] .
    ultimately show ?thesis using Suc by simp
  qed
qed

lemma clear_and_mark:
  assumes "t < length ss" and "distinct (map name ss)"
  shows "(map (\<lambda>s. s\<lparr>is_active := False\<rparr>) ss)
            [t := (map (\<lambda>s. s\<lparr>is_active := False\<rparr>) ss ! t)\<lparr>is_active := True\<rparr>]
         = map (\<lambda>s. s\<lparr>is_active := (name s = name (ss ! t))\<rparr>) ss"
proof (rule nth_equalityI)
  show "length ((map (\<lambda>s. s\<lparr>is_active := False\<rparr>) ss)
            [t := (map (\<lambda>s. s\<lparr>is_active := False\<rparr>) ss ! t)\<lparr>is_active := True\<rparr>])
        = length (map (\<lambda>s. s\<lparr>is_active := (name s = name (ss ! t))\<rparr>) ss)"
    by simp
next
  fix j
  assume "j < length ((map (\<lambda>s. s\<lparr>is_active := False\<rparr>) ss)
            [t := (map (\<lambda>s. s\<lparr>is_active := False\<rparr>) ss ! t)\<lparr>is_active := True\<rparr>])"
  then have j: "j < length ss" by simp
  have "name (ss ! j) = name (ss ! t) \<longleftrightarrow> j = t"
    using assms j by (simp add: nth_eq_iff_index_eq [of "map name ss", symmetric])
  then show "(map (\<lambda>s. s\<lparr>is_active := False\<rparr>) ss)
            [t := (map (\<lambda>s. s\<lparr>is_active := False\<rparr>) ss ! t)\<lparr>is_active := True\<rparr>] ! j
        = map (\<lambda>s. s\<lparr>is_active := (name s = name (ss ! t))\<rparr>) ss ! j"
    using j assms(1) by (simp add: nth_list_update)
qed

lemma nth_not_in_rest:
  assumes "i < length xs" and "distinct xs"
  shows "xs ! i \<notin> set (take i xs @ drop (Suc i) xs)"
proof -
  have "xs = take i xs @ xs ! i # drop (Suc i) xs"
    using assms(1) by (rule id_take_nth_drop)
  then have "distinct (take i xs @ xs ! i # drop (Suc i) xs)"
    using assms(2) by simp
  then show ?thesis by auto
qed

lemma refocus_distinct:
  assumes "i < length (sessions app)" and "distinct (map name (sessions app))"
    and "1 < length (sessions app)"
  shows "\<exists>app1. refocus app i switch_ok = Inr app1
     \<and> sessions app1 =
         map (\<lambda>s. if switch_ok
                   then s\<lparr>is_active := (name s = name (sessions app ! (if i = 0 then 1 else 0)))\<rparr>
                   else s) (sessions app)"
proof -
  have idx: "py_index (sessions app) (sessions app ! i) = Inr i"
    using assms(1,2) by (rule py_index_distinct)
  show ?thesis
  proof (cases switch_ok)
    case False
    then show ?thesis by (simp add: refocus_def idx)
  next
    case True
    have t: "(if i = 0 then 1 else 0) < length (sessions app)"
      using assms(3) by auto
    show ?thesis
      using True clear_and_mark [OF t assms(2)]
      by (simp add: refocus_def idx Let_def)
  qed
qed

lemma mark_prefix:
  assumes "distinct (map name ss)" and "i < length ss"
  shows "n \<le> length ss \<Longrightarrow>
         fold (mark_step i) [0..<n] ss
         = map (\<lambda>s. s\<lparr>is_active := (name s = name (ss ! i))\<rparr>) (take n ss) @ drop n ss"
proof (induction n)
  case 0
  then show ?case by simp
next
  case (Suc n)
  let ?g = "\<lambda>s. s\<lparr>is_active := (name s = name (ss ! i))\<rparr>"
  let ?xs = "map ?g (take n ss) @ drop n ss"
  from Suc.prems have n: "n < length ss" by simp
  have IH: "fold (mark_step i) [0..<n] ss = ?xs" using Suc.IH n by simp
  have xn: "?xs ! n = ss ! n" using n by (simp add: nth_append)
  have ni: "name (?xs ! i) = name (ss ! i)"
    using assms(2) n by (simp add: nth_append)
  have eq: "(?xs ! n = ?xs ! i) \<longleftrightarrow> (name (ss ! n) = name (ss ! i))"
  proof (cases "n = i")
    case True
    then show ?thesis by simp
  next
    case False
    have "name (ss ! n) \<noteq> name (ss ! i)"
      using False n assms by (simp add: nth_eq_iff_index_eq [of "map name ss", symmetric])
    moreover from this have "?xs ! n \<noteq> ?xs ! i" using xn ni by metis
    ultimately show ?thesis by simp
  qed
  have "fold (mark_step i) [0..<Suc n] ss = mark_step i n ?xs"
    by (simp add: IH)
  also have "\<dots> = ?xs[n := ?g (ss ! n)]"
  proof -
    have "(?xs ! n)\<lparr>is_active := (?xs ! n = ?xs ! i)\<rparr> = ?g (ss ! n)"
      by (simp only: eq) (simp only: xn)
    then show ?thesis by (simp only: mark_step_def)
  qed
  also have "\<dots> = map ?g (take n ss) @ ?g (ss ! n) # drop (Suc n) ss"
    using n by (simp add: list_update_append Cons_nth_drop_Suc [symmetric])
  also have "\<dots> = map ?g (take (Suc n) ss) @ drop (Suc n) ss"
    using n by (simp add: take_Suc_conv_app_nth)
  finally show ?case .
qed

lemma mark_active_distinct:
  assumes "i < length ss" and "distinct (map name ss)"
  shows "mark_active i ss = map (\<lambda>s. s\<lparr>is_active := (name s = name (ss ! i))\<rparr>) ss"
  using mark_prefix [OF assms(2,1), of "length ss"] by (simp add: mark_active_def)

lemma py_remove_mset:
  "py_remove xs x = Inr ys \<Longrightarrow> mset xs = add_mset x (mset ys)"
proof (induction xs arbitrary: ys)
  case Nil
  then show ?case by simp
next
  case (Cons y xs)
  show ?case
  proof (cases "y = x")
    case True
    with Cons.prems show ?thesis by simp
  next
    case False
    with Cons.prems obtain zs where z: "py_remove xs x = Inr zs" and ys: "ys = y # zs"
      by (auto split: sum.splits)
    from Cons.IH [OF z] ys show ?thesis by simp
  qed
qed

lemma py_index_member:
  "x \<in> set xs \<Longrightarrow> \<exists>n. py_index xs x = Inr n \<and> n < length xs"
  by (induction xs) auto

lemma py_remove_member:
  "x \<in> set xs \<Longrightarrow> \<exists>ys. py_remove xs x = Inr ys"
  by (induction xs) auto

lemma active_count_mset: "active_count xs = size (filter_mset is_active (mset xs))"
  by (simp add: active_count_def flip: mset_filter)

lemma active_count_sort: "active_count (sort_sessions timestamp xs) = active_count xs"
  by (simp add: active_count_mset sort_sessions_def)

lemma active_count_cleared: "active_count (map (\<lambda>s. s\<lparr>is_active := False\<rparr>) xs) = 0"
  by (induction xs) (simp_all add: active_count_def)

lemma active_count_append: "active_count (xs @ ys) = active_count xs + active_count ys"
  by (simp add: active_count_def)

lemma new_session_one_active:
  "active_count (sessions (action_new_session timestamp expanduser app (Some r) now switch_ok)) = 1"
proof -
  have "sessions (action_new_session timestamp expanduser app (Some r) now switch_ok)
        = sort_sessions timestamp (map (\<lambda>s. s\<lparr>is_active := False\<rparr>) (sessions app)
            @ [Session_init (fst r) (expanduser (snd r)) (''claude-'' @ fst r) True now])"
    by (simp add: action_new_session_def refresh_list_def Let_def)
  then show ?thesis
    by (simp add: active_count_sort active_count_append active_count_cleared)
      (simp add: active_count_def Session_init_def)
qed

lemma update_session_is_active:
  "is_active (fst (update_session pane_map capture_pane s)) = is_active s"
  by (simp add: update_session_def Let_def split: option.splits)

lemma update_status_active_count:
  "active_count (sessions (update_status timestamp app pane_map capture_pane)) = active_count (sessions app)"
proof -
  have "active_count (map (fst \<circ> update_session pane_map capture_pane) xs) = active_count xs" for xs
    by (induction xs) (simp_all add: active_count_def update_session_is_active)
  then show ?thesis
    by (simp add: update_status_def Let_def refresh_list_def active_count_sort)
qed

lemma active_count_marked:
  "distinct (map name xs) \<Longrightarrow>
   active_count (map (\<lambda>s. s\<lparr>is_active := (name s = c)\<rparr>) xs) \<le> 1"
proof (induction xs)
  case Nil
  then show ?case by (simp add: active_count_def)
next
  case (Cons x xs)
  show ?case
  proof (cases "name x = c")
    case True
    with Cons.prems have "c \<notin> name ` set xs" by simp
    then have "\<forall>s \<in> set xs. name s \<noteq> c" by (metis imageI)
    then have "filter is_active (map (\<lambda>s. s\<lparr>is_active := (name s = c)\<rparr>) xs) = []"
      by (simp add: filter_empty_conv)
    with True show ?thesis by (simp add: active_count_def)
  next
    case False
    with Cons show ?thesis by (simp add: active_count_def)
  qed
qed

lemma active_count_update: "active_count (xs[t := y]) \<le> Suc (active_count xs)"
proof (induction xs arbitrary: t)
  case Nil
  then show ?case by simp
next
  case (Cons x xs)
  show ?case
  proof (cases t)
    case 0
    then show ?thesis by (simp add: active_count_def)
  next
    case (Suc k)
    with Cons.IH [of k] show ?thesis by (simp add: active_count_def)
  qed
qed

lemma refocus_ok:
  "py_index (sessions app) (sessions app ! i) = Inr idx \<Longrightarrow>
   refocus app i True =
     Inr (app\<lparr>sessions := (map (\<lambda>s. s\<lparr>is_active := False\<rparr>) (sessions app))
               [(if idx = 0 then 1 else 0) :=
                  (map (\<lambda>s. s\<lparr>is_active := False\<rparr>) (sessions app) ! (if idx = 0 then 1 else 0))
                    \<lparr>is_active := True\<rparr>],
             hint := ''Switched to: ''
               @ tmux_session_name (sessions app ! (if idx = 0 then 1 else 0))\<rparr>)"
  unfolding refocus_def Let_def by (simp only: sum.case if_True)

lemma refocus_fail:
  "py_index (sessions app) (sessions app ! i) = Inr idx \<Longrightarrow> refocus app i False = Inr app"
  unfolding refocus_def Let_def by (simp only: sum.case if_False)

lemma refocus_total:
  assumes "i < length (sessions app)"
  shows "\<exists>app1. refocus app i switch_ok = Inr app1
           \<and> length (sessions app1) = length (sessions app)
           \<and> (active_count (sessions app) \<le> 1 \<longrightarrow> active_count (sessions app1) \<le> 1)"
proof -
  from assms have "sessions app ! i \<in> set (sessions app)" by simp
  from py_index_member [OF this]
  obtain idx where idx: "py_index (sessions app) (sessions app ! i) = Inr idx"
    by (elim exE conjE)
  show ?thesis
  proof (cases switch_ok)
    case False
    have "refocus app i switch_ok = Inr app"
      using refocus_fail [OF idx] False by simp
    then show ?thesis by blast
  next
    case True
    let ?c = "map (\<lambda>s. s\<lparr>is_active := False\<rparr>) (sessions app)"
    let ?t = "if idx = 0 then 1 else (0::nat)"
    let ?ss1 = "?c[?t := (?c ! ?t)\<lparr>is_active := True\<rparr>]"
    let ?app1 = "app\<lparr>sessions := ?ss1,
                     hint := ''Switched to: '' @ tmux_session_name (sessions app ! ?t)\<rparr>"
    have r: "refocus app i switch_ok = Inr ?app1"
      using refocus_ok [OF idx] True by simp
    have s: "sessions ?app1 = ?ss1" by simp
    have l: "length (sessions ?app1) = length (sessions app)"
      unfolding s by simp
    have "active_count ?ss1 \<le> Suc (active_count ?c)"
      by (rule active_count_update)
    also have "\<dots> = 1"
      by (simp only: active_count_cleared One_nat_def)
    finally have c: "active_count (sessions app) \<le> 1 \<longrightarrow> active_count (sessions ?app1) \<le> 1"
      unfolding s by (rule impI)
    show ?thesis
      by (rule exI [of _ ?app1]) (rule conjI [OF r conjI [OF l c]])
  qed
qed

lemma delete_session_total:
  assumes "i < length (sessions app)"
  shows "\<exists>app'. action_delete_session timestamp app (Some i) switch_ok = Inr app'
           \<and> length (sessions app') = length (sessions app) - 1
           \<and> (active_count (sessions app) \<le> 1 \<longrightarrow> active_count (sessions app') \<le> 1)"
proof -
  have "\<exists>app1. (if 1 < length (sessions app) then refocus app i switch_ok else Inr app) = Inr app1
           \<and> length (sessions app1) = length (sessions app)
           \<and> (active_count (sessions app) \<le> 1 \<longrightarrow> active_count (sessions app1) \<le> 1)"
    using refocus_total [OF assms, of switch_ok] by (cases "1 < length (sessions app)") simp_all
  then obtain app1 where
    a1: "(if 1 < length (sessions app) then refocus app i switch_ok else Inr app) = Inr app1"
    and l1: "length (sessions app1) = length (sessions app)"
    and c1: "active_count (sessions app) \<le> 1 \<longrightarrow> active_count (sessions app1) \<le> 1"
    by blast
  from assms l1 have "sessions app1 ! i \<in> set (sessions app1)" by simp
  from py_remove_member [OF this]
  obtain ys where ys: "py_remove (sessions app1) (sessions app1 ! i) = Inr ys"
    by (elim exE)
  have ms: "mset (sessions app1) = add_mset (sessions app1 ! i) (mset ys)"
    using ys by (rule py_remove_mset)
  have "size (mset (sessions app1)) = Suc (size (mset ys))"
    by (simp only: ms size_add_mset)
  then have ly: "length ys = length (sessions app) - 1"
    using l1 by simp
  have "active_count ys \<le> active_count (sessions app1)"
    by (simp add: active_count_mset ms)
  then have cy: "active_count (sessions app) \<le> 1 \<longrightarrow> active_count ys \<le> 1"
    using c1 by linarith
  let ?app' = "refresh_list timestamp (app1\<lparr>sessions := ys\<rparr>)"
  have r: "action_delete_session timestamp app (Some i) switch_ok = Inr ?app'"
    using a1 ys by (simp add: action_delete_session_def)
  have s': "sessions ?app' = sort_sessions timestamp ys" by (simp add: refresh_list_def)
  have l': "length (sessions ?app') = length (sessions app) - 1"
    by (simp only: s' length_sort_sessions ly)
  have c': "active_count (sessions app) \<le> 1 \<longrightarrow> active_count (sessions ?app') \<le> 1"
    using cy by (simp only: s' active_count_sort)
  show ?thesis
    by (rule exI [of _ ?app']) (rule conjI [OF r conjI [OF l' c']])
qed

lemma load_step_fresh:
  "\<forall>s \<in> set ss. status s = READY \<and> last_content s = [] \<Longrightarrow>
   \<forall>s \<in> set (load_step ss t). status s = READY \<and> last_content s = []"
  by (simp add: load_step_def Session_init_def)

lemma foldl_load_step_fresh:
  "\<forall>s \<in> set ss. status s = READY \<and> last_content s = [] \<Longrightarrow>
   \<forall>s \<in> set (foldl load_step ss l). status s = READY \<and> last_content s = []"
proof (induction l arbitrary: ss)
  case Nil
  then show ?case by simp
next
  case (Cons t l)
  from Cons.prems have "\<forall>s \<in> set (load_step ss t). status s = READY \<and> last_content s = []"
    by (rule load_step_fresh)
  then have "\<forall>s \<in> set (foldl load_step (load_step ss t) l). status s = READY \<and> last_content s = []"
    by (rule Cons.IH)
  then show ?case by simp
qed

lemma foldl_load_step_names:
  "map tmux_session_name (foldl load_step ss l)
   = map tmux_session_name ss @ filter (prefix ''claude-'') (map fst l)"
  by (induction l arbitrary: ss) (simp_all add: load_step_def Session_init_def)

section \<open>Sessions entering the registry\<close>

text \<open>
  Claim C10.  Every session that \<open>_load_existing_sessions\<close> puts into the empty registry
  at startup has the status \<open>READY\<close> and an empty \<open>last_content\<close>, and there is one such
  session for each tmux session whose name starts with \<open>claude-\<close>; the registry after
  \<open>action_new_session\<close> consists of the former sessions, their \<open>is_active\<close> cleared, and one
  new session of the submitted name with the status \<open>READY\<close> and an empty \<open>last_content\<close>.
\<close>

theorem sessions_start_ready:
  "(\<forall>s \<in> set (sessions (load_existing_sessions timestamp initial_app server_sessions)).
      status s = READY \<and> last_content s = [])
   \<and> mset (map tmux_session_name (sessions (load_existing_sessions timestamp initial_app server_sessions)))
       = mset (filter (prefix ''claude-'') (map fst server_sessions))
   \<and> (\<exists>new. mset (sessions (action_new_session timestamp expanduser app (Some r) now switch_ok))
              = mset (map (\<lambda>s. s\<lparr>is_active := False\<rparr>) (sessions app)) + {#new#}
            \<and> name new = fst r \<and> status new = READY \<and> last_content new = [])"
proof -
  let ?l = "foldl load_step [] server_sessions"
  have s: "sessions (load_existing_sessions timestamp initial_app server_sessions) = sort_sessions timestamp ?l"
    by (simp add: load_existing_sessions_def refresh_list_def initial_app_def)
  have "\<forall>s \<in> set ?l. status s = READY \<and> last_content s = []"
    by (rule foldl_load_step_fresh) simp
  then have 1: "\<forall>s \<in> set (sessions (load_existing_sessions timestamp initial_app server_sessions)).
      status s = READY \<and> last_content s = []"
    by (simp add: s set_sort_sessions)
  have "mset (map tmux_session_name (sort_sessions timestamp ?l)) = mset (map tmux_session_name ?l)"
    by (simp add: sort_sessions_def)
  then have 2: "mset (map tmux_session_name (sessions (load_existing_sessions timestamp initial_app server_sessions)))
       = mset (filter (prefix ''claude-'') (map fst server_sessions))"
    by (simp add: s foldl_load_step_names)
  let ?new = "Session_init (fst r) (expanduser (snd r)) (''claude-'' @ fst r) True now"
  have m: "mset (sessions (action_new_session timestamp expanduser app (Some r) now switch_ok))
              = mset (map (\<lambda>s. s\<lparr>is_active := False\<rparr>) (sessions app)) + {#?new#}"
    by (simp add: action_new_session_def refresh_list_def sort_sessions_def Let_def)
  have n: "name ?new = fst r \<and> status ?new = READY \<and> last_content ?new = []"
    by (simp add: Session_init_def)
  have 3: "\<exists>new. mset (sessions (action_new_session timestamp expanduser app (Some r) now switch_ok))
              = mset (map (\<lambda>s. s\<lparr>is_active := False\<rparr>) (sessions app)) + {#new#}
            \<and> name new = fst r \<and> status new = READY \<and> last_content new = []"
    by (rule exI [of _ ?new]) (rule conjI [OF m n])
  show ?thesis by (rule conjI [OF 1 conjI [OF 2 3]])
qed

theorem sessions_start_ready_witness:
  "sessions (load_existing_sessions whole_second_timestamp initial_app
       [(''claude-a'', 5000000), (''main'', 6000000)])
     = [Session_init ''a'' [] ''claude-a'' False 5000000]
   \<and> map status (sessions (load_existing_sessions whole_second_timestamp initial_app
       [(''claude-a'', 5000000), (''main'', 6000000)]))
     = [READY]
   \<and> map last_content (sessions (load_existing_sessions whole_second_timestamp initial_app
       [(''claude-a'', 5000000), (''main'', 6000000)]))
     = [[]]"
proof -
  let ?ss = "sessions (load_existing_sessions whole_second_timestamp initial_app
       [(''claude-a'', 5000000), (''main'', 6000000)])"
  have e: "?ss = [Session_init ''a'' [] ''claude-a'' False 5000000]"
    by (simp add: load_existing_sessions_def load_step_def initial_app_def refresh_list_def
        sort_sessions_def)
  note r = sessions_start_ready [of whole_second_timestamp
        "[(''claude-a'', 5000000), (''main'', 6000000)]" id initial_app "(''x'', ''~'')" 7000000 True]
  have "\<forall>s \<in> set ?ss. status s = READY \<and> last_content s = []"
    by (rule conjunct1 [OF r])
  then have "status (Session_init ''a'' [] ''claude-a'' False 5000000) = READY
      \<and> last_content (Session_init ''a'' [] ''claude-a'' False 5000000) = []"
    unfolding e by simp
  then have "map status ?ss = [READY] \<and> map last_content ?ss = [[]]"
    unfolding e by simp
  with e show ?thesis by (rule conjI)
qed

section \<open>Switching the focus\<close>

text \<open>
  Claim C7.  The loop of \<open>action_switch_session\<close> marks every session that compares equal
  to the targeted one.  Two tmux sessions found at startup within one tick of the clock
  and the second renamed to the name of the first are two sessions of equal fields; with
  the second one targeted, a successful switch leaves both of them with \<open>is_active\<close> set:
  the targeted session is not the only active one.
\<close>

theorem switch_session_marks_equal_session:
  "map name (sessions (action_rename_session timestamp
       (load_existing_sessions timestamp initial_app
            [(''claude-a'', 5000000), (''claude-b'', 5000000)])
       (Some 1) (rename_on_input_submitted ''a'')))
     = [''a'', ''a'']
   \<and> map is_active (sessions (action_switch_session timestamp
       (action_rename_session timestamp
          (load_existing_sessions timestamp initial_app
            [(''claude-a'', 5000000), (''claude-b'', 5000000)])
          (Some 1) (rename_on_input_submitted ''a''))
       (Some 1) True 9000000))
     = [True, True]"
  by (simp add: action_switch_session_def action_rename_session_def load_existing_sessions_def
      load_step_def initial_app_def rename_on_input_submitted_def py_strip_def py_isspace_def
      Session_init_def mark_active_def mark_step_def
      refresh_list_def sort_sessions_def sort_key_of_def dict_get_def STATUS_PRIORITY_def
      Let_def upt_rec)

text \<open>
  When the names of the sessions are distinct, a successful switch does what is intended:
  the targeted session is marked active, stamped with the clock reading and demoted from
  \<open>READY\<close> to \<open>READ\<close>, every other session is marked inactive, and the hint reports the
  switch; a failed switch changes the hint only.
\<close>

lemma switch_session_distinct_names:
  assumes "i < length (sessions app)" and "distinct (map name (sessions app))"
  shows "sessions (action_switch_session timestamp app (Some i) True now)
         = sort_sessions timestamp
             (map (\<lambda>s. if name s = name (sessions app ! i)
                       then s\<lparr>is_active := True, last_visited := now,
                               status := (if status s = READY then READ else status s)\<rparr>
                       else s\<lparr>is_active := False\<rparr>) (sessions app))"
proof -
  let ?ss = "sessions app"
  let ?g = "\<lambda>s. s\<lparr>is_active := (name s = name (?ss ! i))\<rparr>"
  let ?h = "\<lambda>s. if name s = name (?ss ! i)
                 then s\<lparr>is_active := True, last_visited := now,
                         status := (if status s = READY then READ else status s)\<rparr>
                 else s\<lparr>is_active := False\<rparr>"
  let ?ss1 = "map ?g ?ss"
  let ?ss2 = "?ss1[i := (?ss1 ! i)\<lparr>last_visited := now\<rparr>]"
  let ?ss3 = "if status (?ss2 ! i) = READY then ?ss2[i := (?ss2 ! i)\<lparr>status := READ\<rparr>] else ?ss2"
  have m: "mark_active i ?ss = ?ss1" using assms by (rule mark_active_distinct)
  have "?ss3 = map ?h ?ss"
  proof (rule nth_equalityI)
    show "length ?ss3 = length (map ?h ?ss)" by simp
  next
    fix j assume "j < length ?ss3"
    then have j: "j < length ?ss" by (simp split: if_splits)
    have nm: "name (?ss ! j) = name (?ss ! i) \<longleftrightarrow> j = i"
      using assms j by (simp add: nth_eq_iff_index_eq [of "map name ?ss", symmetric])
    show "?ss3 ! j = map ?h ?ss ! j"
      using j assms(1) nm by (cases "j = i") (simp_all add: nth_list_update)
  qed
  then show ?thesis
    by (simp add: action_switch_session_def m Let_def refresh_list_def)
qed

lemma filter_name_distinct:
  "distinct (map name xs) \<Longrightarrow> i < length xs \<Longrightarrow>
   length (filter (\<lambda>s. name s = name (xs ! i)) xs) = 1"
proof (induction xs arbitrary: i)
  case Nil
  then show ?case by simp
next
  case (Cons x xs)
  from Cons.prems have nx: "name x \<notin> name ` set xs" and d: "distinct (map name xs)"
    by simp_all
  show ?case
  proof (cases i)
    case 0
    from nx have "\<forall>s \<in> set xs. name s \<noteq> name x" by (metis imageI)
    then have "filter (\<lambda>s. name s = name x) xs = []"
      by (simp add: filter_empty_conv)
    with 0 show ?thesis by simp
  next
    case (Suc k)
    with Cons.prems have k: "k < length xs" by simp
    from k nx have "name x \<noteq> name (xs ! k)" by (metis imageI nth_mem)
    with Suc Cons.IH [OF d k] show ?thesis by simp
  qed
qed

lemma switch_session_one_active:
  assumes "i < length (sessions app)" and "distinct (map name (sessions app))"
  shows "active_count (sessions (action_switch_session timestamp app (Some i) True now)) = 1"
proof -
  let ?ss = "sessions app"
  let ?c = "name (?ss ! i)"
  let ?h = "\<lambda>s. if name s = ?c
                 then s\<lparr>is_active := True, last_visited := now,
                         status := (if status s = READY then READ else status s)\<rparr>
                 else s\<lparr>is_active := False\<rparr>"
  have f: "filter is_active (map ?h xs) = map ?h (filter (\<lambda>s. name s = ?c) xs)" for xs
    by (induction xs) simp_all
  have "length (filter (\<lambda>s. name s = ?c) ?ss) = 1"
    using assms(2,1) by (rule filter_name_distinct)
  then have "active_count (map ?h ?ss) = 1"
    by (simp add: active_count_def f)
  then show ?thesis
    by (simp only: switch_session_distinct_names [OF assms] active_count_sort)
qed

lemma switch_session_hint:
  "hint (action_switch_session timestamp app (Some i) False now)
     = ''No tmux client! Run: tmux attach -t '' @ tmux_session_name (sessions app ! i)"
  "sessions (action_switch_session timestamp app (Some i) False now) = sessions app"
  "take 13 (hint (action_switch_session timestamp app (Some i) True now)) = ''Switched to: ''"
  by (simp_all add: action_switch_session_def Let_def refresh_list_def)

section \<open>Deleting a session\<close>

text \<open>
  The claim C8 as it was stated fails: with no tmux client attached the switch to the
  other session is refused, the deleted session leaves the registry, and the session at
  index 0 is still not active.
\<close>

theorem delete_without_client_keeps_focus_flags:
  "action_delete_session whole_second_timestamp
     \<lparr>sessions = [Session_init ''x'' [] ''claude-x'' False 5000000,
                  Session_init ''y'' [] ''claude-y'' True 6000000], hint = []\<rparr>
     (Some 1) False
   = Inr \<lparr>sessions = [Session_init ''x'' [] ''claude-x'' False 5000000], hint = []\<rparr>
   \<and> \<not> is_active (Session_init ''x'' [] ''claude-x'' False 5000000)"
  by (simp add: action_delete_session_def refocus_def Session_init_def
      refresh_list_def sort_sessions_def Let_def)

text \<open>
  Claim C8, as the code has it.  For a registry of distinct session names, deleting the
  session at position \<open>i\<close> succeeds whatever the backend answers: the registry becomes the
  sorted view of the other sessions, one session shorter, and no session of the deleted name
  is left in it.  When there is another session and the switch to the session at index 0
  (index 1 when the deleted one is at index 0) succeeds, that session is the one marked
  active among those left; when the switch fails, or there is no other session, the
  \<open>is_active\<close> marks of the sessions left are as they were.
\<close>

theorem delete_session_removes:
  assumes "i < length (sessions app)" and "distinct (map name (sessions app))"
  shows "\<exists>app'. action_delete_session timestamp app (Some i) switch_ok = Inr app'
     \<and> sessions app' =
         sort_sessions timestamp
           (map (\<lambda>s. if 1 < length (sessions app) \<and> switch_ok
                     then s\<lparr>is_active := (name s = name (sessions app ! (if i = 0 then 1 else 0)))\<rparr>
                     else s)
              (take i (sessions app) @ drop (Suc i) (sessions app)))
     \<and> name (sessions app ! i) \<notin> set (map name (sessions app'))
     \<and> length (sessions app') = length (sessions app) - 1"
proof -
  let ?ss = "sessions app"
  let ?g = "\<lambda>s. if 1 < length ?ss \<and> switch_ok
                 then s\<lparr>is_active := (name s = name (?ss ! (if i = 0 then 1 else 0)))\<rparr>
                 else s"
  let ?rest = "take i ?ss @ drop (Suc i) ?ss"
  have names: "map name (map ?g xs) = map name xs" for xs
    by (induction xs) simp_all
  have "\<exists>app1. (if 1 < length ?ss then refocus app i switch_ok else Inr app) = Inr app1
          \<and> sessions app1 = map ?g ?ss"
  proof (cases "1 < length ?ss")
    case True
    then show ?thesis using refocus_distinct [OF assms True, of switch_ok] by auto
  next
    case False
    then show ?thesis by (simp add: map_idI)
  qed
  then obtain app1 where
    a1: "(if 1 < length ?ss then refocus app i switch_ok else Inr app) = Inr app1"
    and s1: "sessions app1 = map ?g ?ss" by blast
  have d1: "distinct (map name (map ?g ?ss))"
    using assms(2) by (simp only: names)
  have i1: "i < length (map ?g ?ss)" using assms(1) by simp
  have "py_remove (map ?g ?ss) (map ?g ?ss ! i)
          = Inr (take i (map ?g ?ss) @ drop (Suc i) (map ?g ?ss))"
    using i1 d1 by (rule py_remove_distinct)
  then have rm: "py_remove (sessions app1) (sessions app1 ! i) = Inr (map ?g ?rest)"
    by (simp only: s1 take_map drop_map map_append)
  let ?app' = "refresh_list timestamp (app1\<lparr>sessions := map ?g ?rest\<rparr>)"
  have r: "action_delete_session timestamp app (Some i) switch_ok = Inr ?app'"
    using a1 rm by (simp add: action_delete_session_def)
  have s': "sessions ?app' = sort_sessions timestamp (map ?g ?rest)"
    by (simp add: refresh_list_def)
  have e: "set (map name (sessions ?app')) = set (map name ?rest)"
  proof -
    have "set (map name (sort_sessions timestamp (map ?g ?rest))) = name ` set (map ?g ?rest)"
      by (simp only: set_map set_sort_sessions)
    also have "\<dots> = set (map name (map ?g ?rest))"
      by (simp only: set_map)
    also have "\<dots> = set (map name ?rest)"
      by (simp only: names)
    finally show ?thesis by (simp only: s')
  qed
  have "name (?ss ! i) \<notin> set (map name ?rest)"
    using nth_not_in_rest [of i "map name ?ss"] assms
    by (simp add: take_map drop_map)
  then have n': "name (?ss ! i) \<notin> set (map name (sessions ?app'))"
    unfolding e .
  have "length (sort_sessions timestamp (map ?g ?rest)) = length ?rest"
    by (simp only: length_sort_sessions length_map)
  also have "\<dots> = length ?ss - 1"
    using assms(1) by simp
  finally have l': "length (sessions ?app') = length ?ss - 1"
    by (simp only: s')
  show ?thesis
    by (rule exI [of _ ?app']) (rule conjI [OF r conjI [OF s' conjI [OF n' l']]])
qed

theorem delete_session_removes_witness:
  "(1::nat) < length (sessions \<lparr>sessions = [Session_init ''x'' [] ''claude-x'' False 5000000,
                                  Session_init ''y'' [] ''claude-y'' True 6000000], hint = []\<rparr>)
   \<and> distinct (map name (sessions \<lparr>sessions = [Session_init ''x'' [] ''claude-x'' False 5000000,
                                  Session_init ''y'' [] ''claude-y'' True 6000000], hint = []\<rparr>))
   \<and> action_delete_session whole_second_timestamp
        \<lparr>sessions = [Session_init ''x'' [] ''claude-x'' False 5000000,
                     Session_init ''y'' [] ''claude-y'' True 6000000], hint = []\<rparr> (Some 1) True
      = Inr \<lparr>sessions = [Session_init ''x'' [] ''claude-x'' True 5000000],
             hint = ''Switched to: claude-x''\<rparr>
   \<and> (\<exists>app'. action_delete_session whole_second_timestamp
        \<lparr>sessions = [Session_init ''x'' [] ''claude-x'' False 5000000,
                     Session_init ''y'' [] ''claude-y'' True 6000000], hint = []\<rparr> (Some 1) True
         = Inr app'
       \<and> ''y'' \<notin> set (map name (sessions app')) \<and> length (sessions app') = 1)"
proof -
  let ?app = "\<lparr>sessions = [Session_init ''x'' [] ''claude-x'' False 5000000,
                           Session_init ''y'' [] ''claude-y'' True 6000000], hint = []\<rparr>"
  have h1: "(1::nat) < length (sessions ?app)" by simp
  have h2: "distinct (map name (sessions ?app))" by (simp add: Session_init_def)
  have e: "action_delete_session whole_second_timestamp ?app (Some 1) True
      = Inr \<lparr>sessions = [Session_init ''x'' [] ''claude-x'' True 5000000],
             hint = ''Switched to: claude-x''\<rparr>"
    by (simp add: action_delete_session_def refocus_def Session_init_def
        refresh_list_def sort_sessions_def Let_def)
  have n: "name (sessions ?app ! 1) = ''y''" by (simp add: Session_init_def)
  from delete_session_removes [OF h1 h2, of whole_second_timestamp True]
  obtain app' where a: "action_delete_session whole_second_timestamp ?app (Some 1) True = Inr app'"
    and b: "name (sessions ?app ! 1) \<notin> set (map name (sessions app'))"
    and c: "length (sessions app') = length (sessions ?app) - 1"
    by blast
  from b have b': "''y'' \<notin> set (map name (sessions app'))" unfolding n .
  from c have c': "length (sessions app') = 1" by simp
  have "\<exists>app'. action_delete_session whole_second_timestamp ?app (Some 1) True = Inr app'
       \<and> ''y'' \<notin> set (map name (sessions app')) \<and> length (sessions app') = 1"
    by (rule exI [of _ app']) (rule conjI [OF a conjI [OF b' c']])
  with h1 h2 e show ?thesis by (intro conjI)
qed

section \<open>At most one active session\<close>

text \<open>
  Claim C9.  The invariant breaks in \<open>action_switch_session\<close>: after the startup scan, a
  rename and a successful switch, the registry that had no active session has two.
\<close>

theorem two_active_after_switch:
  "active_count (sessions (action_switch_session timestamp
      (action_rename_session timestamp
         (load_existing_sessions timestamp initial_app
            [(''claude-a'', 5000000), (''claude-b'', 5000000)])
         (Some 1) (rename_on_input_submitted ''a''))
      (Some 1) True 9000000))
   = 2"
  by (simp add: action_switch_session_def action_rename_session_def load_existing_sessions_def
      load_step_def initial_app_def rename_on_input_submitted_def py_strip_def py_isspace_def
      Session_init_def mark_active_def mark_step_def active_count_def
      refresh_list_def sort_sessions_def sort_key_of_def dict_get_def STATUS_PRIORITY_def
      Let_def upt_rec)

text \<open>
  The other operations keep the invariant: creating a session leaves exactly one active
  session, a poll tick does not touch the marks, and deleting a session never raises the
  number of active sessions above one (see \<open>delete_session_total\<close>); so does a switch when
  the names are distinct (see \<open>switch_session_one_active\<close>).
\<close>

lemma rename_session_active_count:
  "active_count (sessions (action_rename_session timestamp app h n)) = active_count (sessions app)"
proof -
  have u: "active_count (xs[i := (xs ! i)\<lparr>name := a, tmux_session_name := b\<rparr>]) = active_count xs"
    for xs :: "Session list" and i a b
  proof (induction xs arbitrary: i)
    case Nil
    then show ?case by simp
  next
    case (Cons x xs)
    then show ?case by (cases i) (simp_all add: active_count_def)
  qed
  show ?thesis
    by (simp add: action_rename_session_def refresh_list_def active_count_sort u
        split: option.splits)
qed

lemma load_existing_sessions_none_active:
  "active_count (sessions (load_existing_sessions timestamp initial_app server_sessions)) = 0"
proof -
  have "active_count ss = 0 \<Longrightarrow> active_count (foldl load_step ss l) = 0" for ss l
  proof (induction l arbitrary: ss)
    case Nil
    then show ?case by simp
  next
    case (Cons t l)
    from Cons.prems have "active_count (load_step ss t) = 0"
      by (simp add: load_step_def active_count_def Session_init_def)
    then show ?case using Cons.IH [of "load_step ss t"] by simp
  qed
  then have "active_count (foldl load_step [] server_sessions) = 0"
    by (simp add: active_count_def)
  then show ?thesis
    by (simp add: load_existing_sessions_def refresh_list_def initial_app_def active_count_sort)
qed

end
